theory Spec2Isabelle
  imports Main
begin

section \<open>The commit graph\<close>

text \<open>
  \<^verbatim>\<open>matchcommits.py\<close> reads three attributes of a GitPython commit object:
  \<^verbatim>\<open>hexsha\<close>, \<^verbatim>\<open>committed_datetime\<close> and \<^verbatim>\<open>parents\<close>. A commit is immutable and
  names its parents by hash, so a history is a finite tree of values: a commit with
  an empty \<^verbatim>\<open>parents\<close> is a root. The committed time is a point in time (an aware
  datetime); it is modelled as an integer number of seconds since the epoch, and a
  timedelta as a difference of two of them.
\<close>

datatype commit =
  Commit (hexsha: string) (committed_datetime: int) (parents: "commit list")

text \<open>
  The exceptions the search can raise: \<^verbatim>\<open>parents[0]\<close> on a commit without parents and
  \<^verbatim>\<open>stack[0]\<close> on an empty list raise \<^verbatim>\<open>IndexError\<close>; \<^verbatim>\<open>repo.commit(branch)\<close> raises
  \<^verbatim>\<open>BadName\<close> for a name that does not resolve.
\<close>

datatype error = IndexError | BadName

text \<open>
  The command-line flags that \<^verbatim>\<open>find_closest_commits\<close> reads from the global
  \<^verbatim>\<open>args\<close>, passed as a parameter here.
\<close>

record args =
  search_out_of_order :: bool
  always_after :: bool
  always_before :: bool

text \<open>The two reads made on the repository: \<^verbatim>\<open>repo.head.commit\<close> and \<^verbatim>\<open>repo.commit(name)\<close>.\<close>

record repo =
  head_commit :: commit
  commit_named :: "string \<Rightarrow> commit option"

lemma size_parent: "p \<in> set (parents c) \<Longrightarrow> size p < size c"
proof (cases c)
  case (Commit h d ps)
  assume "p \<in> set (parents c)"
  with Commit have "p \<in> set ps" by simp
  then have "size p \<le> size_list size ps"
    by (induction ps) auto
  with Commit show ?thesis by simp
qed

section \<open>Lines 125--132: is the reference commit out of order?\<close>

text \<open>
  \<^verbatim>\<open>
  count = 200
  next_commit = target_commit
  while count:
      count -= 1
      next_commit = next_commit.parents[0]
      if next_commit.committed_datetime > target_commit_datetime:
          target_ooo = True
          break
  \<close>
  The model returns the flag together with the value of \<^verbatim>\<open>count\<close> when the loop is
  left, so that the number of parent lookups made is \<open>200 - count\<close>.
\<close>

function ooo_loop :: "int \<Rightarrow> int \<Rightarrow> commit \<Rightarrow> error + (bool \<times> int)" where
  "ooo_loop target_commit_datetime count next_commit =
     (if count = 0 then Inr (False, count)
      else (case parents next_commit of
              [] \<Rightarrow> Inl IndexError
            | p # _ \<Rightarrow>
                if committed_datetime p > target_commit_datetime
                then Inr (True, count - 1)
                else ooo_loop target_commit_datetime (count - 1) p))"
  by pat_completeness auto
termination
  by (relation "measure (\<lambda>(t, n, c). size c)") (auto intro: size_parent)

declare ooo_loop.simps [simp del]

section \<open>Lines 140--157: building the search stack\<close>

text \<open>
  The inner loop, with \<^verbatim>\<open>stack[0]\<close> the head of the list and \<^verbatim>\<open>stack.pop()\<close> its last
  element:
  \<^verbatim>\<open>
  while len(stack) and next_commit.committed_datetime > stack[0].committed_datetime:
      ooo_commits.append(stack.pop())
  \<close>
\<close>

function evict :: "commit \<Rightarrow> commit list \<Rightarrow> commit list \<Rightarrow> commit list \<times> commit list" where
  "evict next_commit stack ooo_commits =
     (if stack \<noteq> [] \<and> committed_datetime next_commit > committed_datetime (hd stack)
      then evict next_commit (butlast stack) (ooo_commits @ [last stack])
      else (stack, ooo_commits))"
  by pat_completeness auto
termination
  by (relation "measure (\<lambda>(n, s, a). length s)") auto

declare evict.simps [simp del]

text \<open>
  The countdown, lines 150--157:
  \<^verbatim>\<open>
  if next_commit.committed_datetime < target_commit_datetime and count < 0:
      count = 200
  if count > 0 and next_commit.committed_datetime > target_commit_datetime:
      count = -1
  ...
  count -= 1
  \<close>
\<close>

definition countdown :: "int \<Rightarrow> commit \<Rightarrow> int \<Rightarrow> int" where
  "countdown target_commit_datetime next_commit count =
     (let count1 = (if committed_datetime next_commit < target_commit_datetime \<and> count < 0
                    then 200 else count);
          count2 = (if count1 > 0 \<and> committed_datetime next_commit > target_commit_datetime
                    then - 1 else count1)
      in count2 - 1)"

text \<open>
  The outer loop \<^verbatim>\<open>while count:\<close>. \<^verbatim>\<open>stack[-1]\<close> raises on an empty stack and
  \<^verbatim>\<open>parents[0]\<close> raises on a root commit.
\<close>

function build_loop ::
  "int \<Rightarrow> commit list \<Rightarrow> commit list \<Rightarrow> int \<Rightarrow> error + (commit list \<times> commit list)" where
  "build_loop target_commit_datetime stack ooo_commits count =
     (if count = 0 then Inr (stack, ooo_commits)
      else if stack = [] then Inl IndexError
      else (case parents (last stack) of
              [] \<Rightarrow> Inl IndexError
            | next_commit # _ \<Rightarrow>
                (case evict next_commit stack ooo_commits of
                   (stack', ooo_commits') \<Rightarrow>
                     build_loop target_commit_datetime (stack' @ [next_commit]) ooo_commits'
                       (countdown target_commit_datetime next_commit count))))"
  by pat_completeness auto
termination
  by (relation "measure (\<lambda>(t, s, a, n). size (last s))") (auto intro: size_parent)

declare build_loop.simps [simp del]

section \<open>Lines 159--167: merging, filtering, ranking\<close>

definition distance :: "int \<Rightarrow> commit \<Rightarrow> int" where
  "distance target_commit_datetime c = \<bar>committed_datetime c - target_commit_datetime\<bar>"

text \<open>
  \<^verbatim>\<open>
  if target_ooo:
      stack += ooo_commits
  if args.always_after:
      stack = [c for c in stack if c.committed_datetime >= target_commit_datetime]
  elif args.always_before:
      stack = [c for c in stack if c.committed_datetime < target_commit_datetime]
  \<close>
\<close>

definition merge_filter :: "args \<Rightarrow> int \<Rightarrow> bool \<Rightarrow> commit list \<Rightarrow> commit list \<Rightarrow> commit list" where
  "merge_filter a target_commit_datetime target_ooo stack ooo_commits =
     (let stack1 = (if target_ooo then stack @ ooo_commits else stack)
      in if always_after a
         then filter (\<lambda>c. committed_datetime c \<ge> target_commit_datetime) stack1
         else if always_before a
         then filter (\<lambda>c. committed_datetime c < target_commit_datetime) stack1
         else stack1)"

text \<open>
  \<^verbatim>\<open>stack.sort(key=lambda c: abs(c.committed_datetime - target_commit_datetime))\<close>:
  Python's \<^verbatim>\<open>list.sort\<close> is a stable sort on the key, as \<^const>\<open>sort_key\<close> is.
\<close>

definition rank :: "int \<Rightarrow> commit list \<Rightarrow> commit list" where
  "rank target_commit_datetime stack = sort_key (distance target_commit_datetime) stack"

text \<open>\<^verbatim>\<open>return (stack[0], stack[1] if len(stack) > 1 else None)\<close>\<close>

definition first_two :: "commit list \<Rightarrow> error + (commit \<times> commit option)" where
  "first_two stack =
     (case stack of
        [] \<Rightarrow> Inl IndexError
      | c # rest \<Rightarrow> Inr (c, if length stack > 1 then Some (stack ! 1) else None))"

definition select_closest ::
  "args \<Rightarrow> int \<Rightarrow> bool \<Rightarrow> commit list \<Rightarrow> commit list \<Rightarrow> error + (commit \<times> commit option)" where
  "select_closest a target_commit_datetime target_ooo stack ooo_commits =
     first_two (rank target_commit_datetime
       (merge_filter a target_commit_datetime target_ooo stack ooo_commits))"

section \<open>\<^verbatim>\<open>find_closest_commits\<close>\<close>

text \<open>
  \<^verbatim>\<open>stack = [repo.commit(branch) if branch else repo.head.commit]\<close>: an empty (or absent)
  branch name is falsy.
\<close>

definition start_commit :: "repo \<Rightarrow> string \<Rightarrow> error + commit" where
  "start_commit r branch =
     (if branch \<noteq> []
      then (case commit_named r branch of None \<Rightarrow> Inl BadName | Some c \<Rightarrow> Inr c)
      else Inr (head_commit r))"

definition find_closest_commits ::
  "args \<Rightarrow> repo \<Rightarrow> commit \<Rightarrow> string \<Rightarrow> error + (commit \<times> commit option)" where
  "find_closest_commits a r target_commit branch =
     (let target_commit_datetime = committed_datetime target_commit
      in (case ooo_loop target_commit_datetime 200 target_commit of
            Inl e \<Rightarrow> Inl e
          | Inr (found, _) \<Rightarrow>
              (let target_ooo = (if search_out_of_order a \<and> \<not> found then True else found)
               in (case start_commit r branch of
                     Inl e \<Rightarrow> Inl e
                   | Inr tip \<Rightarrow>
                       (case build_loop target_commit_datetime [tip] [] (- 1) of
                          Inl e \<Rightarrow> Inl e
                        | Inr (stack, ooo_commits) \<Rightarrow>
                            select_closest a target_commit_datetime target_ooo
                              stack ooo_commits)))))"

section \<open>Histories\<close>

text \<open>
  The first-parent chain of a commit: the commit itself, then its first parent, and so
  on down to the root. It is what both loops walk, and the properties below are stated
  over it.
\<close>

function first_parent_chain :: "commit \<Rightarrow> commit list" where
  "first_parent_chain c =
     (case parents c of [] \<Rightarrow> [c] | p # _ \<Rightarrow> c # first_parent_chain p)"
  by pat_completeness auto
termination
  by (relation "measure size") (auto intro: size_parent)

declare first_parent_chain.simps [simp del]

text \<open>
  A linear history with the given committed times, newest first, for concrete inputs:
  \<open>history ts\<close> is the \<^verbatim>\<open>parents\<close> list of a commit whose ancestors have the times \<open>ts\<close>.
\<close>

fun history :: "int list \<Rightarrow> commit list" where
  "history [] = []"
| "history (t # ts) = [Commit [] t (history ts)]"

text \<open>
  The commits of such a history in traversal order: \<open>commits (t # ts)\<close> is the
  first-parent chain of the commit \<open>Commit [] t (history ts)\<close>.
\<close>

fun commits :: "int list \<Rightarrow> commit list" where
  "commits [] = []"
| "commits (t # ts) = Commit [] t (history ts) # commits ts"

section \<open>The stack builder as a function of the commits it visits\<close>

text \<open>
  One pass through the body of the outer loop changes the two lists by the inner loop
  and the append of line 156; which commit comes next does not depend on them. So the
  lists at the end are \<open>place\<close> folded over the ancestors visited (\<open>sweep\<close>), and the
  number of ancestors visited is decided by the countdown alone (\<open>steps\<close>, which is
  \<open>None\<close> when the ancestors run out before the countdown reaches zero). Lemma
  \<open>build_loop_steps\<close> below proves that \<open>build_loop\<close> computes exactly this.
\<close>

definition place :: "commit \<Rightarrow> commit list \<times> commit list \<Rightarrow> commit list \<times> commit list" where
  "place next_commit so =
     (case evict next_commit (fst so) (snd so) of
        (stack', ooo_commits') \<Rightarrow> (stack' @ [next_commit], ooo_commits'))"

definition sweep :: "commit list \<times> commit list \<Rightarrow> commit list \<Rightarrow> commit list \<times> commit list" where
  "sweep so ns = foldl (\<lambda>so n. place n so) so ns"

fun steps :: "int \<Rightarrow> int \<Rightarrow> commit list \<Rightarrow> nat option" where
  "steps t c [] = (if c = 0 then Some 0 else None)"
| "steps t c (n # ns) =
     (if c = 0 then Some 0 else map_option Suc (steps t (countdown t n c) ns))"

section \<open>Lemmas on the loops\<close>

lemma evict_eq:
  "evict n s a = (if s \<noteq> [] \<and> committed_datetime n > committed_datetime (hd s)
                  then ([], a @ rev s) else (s, a))"
proof (induction n s a rule: evict.induct)
  case (1 n s a)
  show ?case
  proof (cases "s \<noteq> [] \<and> committed_datetime n > committed_datetime (hd s)")
    case False
    then show ?thesis by (subst evict.simps) auto
  next
    case True
    then have s: "s = butlast s @ [last s]" by simp
    have ih: "evict n (butlast s) (a @ [last s]) =
        (if butlast s \<noteq> [] \<and> committed_datetime n > committed_datetime (hd (butlast s))
         then ([], (a @ [last s]) @ rev (butlast s)) else (butlast s, a @ [last s]))"
      using 1 True by blast
    have r: "rev s = last s # rev (butlast s)"
      by (subst s) simp
    show ?thesis
    proof (cases "butlast s = []")
      case True
      with s have "s = [last s]" by simp
      then show ?thesis using ih True \<open>s \<noteq> [] \<and> _\<close>
        by (subst evict.simps) (auto simp: r)
    next
      case False
      then have "hd (butlast s) = hd s"
        by (cases s) auto
      then show ?thesis using ih False True
        by (subst evict.simps) (auto simp: r)
    qed
  qed
qed

lemma place_eq:
  "place n (s, a) = (if s \<noteq> [] \<and> committed_datetime n > committed_datetime (hd s)
                     then ([n], a @ rev s) else (s @ [n], a))"
  by (simp add: place_def evict_eq)

lemma sweep_Nil [simp]: "sweep so [] = so"
  by (simp add: sweep_def)

lemma sweep_Cons [simp]: "sweep so (n # ns) = sweep (place n so) ns"
  by (simp add: sweep_def)

lemma sweep_append: "sweep so (xs @ ys) = sweep (sweep so xs) ys"
  by (simp add: sweep_def)

lemma chain_unfold:
  "first_parent_chain c = c # (case parents c of [] \<Rightarrow> [] | p # _ \<Rightarrow> first_parent_chain p)"
  by (subst first_parent_chain.simps) (simp split: list.splits)

lemma chain_root: "parents c = [] \<Longrightarrow> first_parent_chain c = [c]"
  by (subst first_parent_chain.simps) simp

lemma chain_step: "parents c = p # ps \<Longrightarrow> first_parent_chain c = c # first_parent_chain p"
  by (subst first_parent_chain.simps) simp

lemma hd_chain [simp]: "hd (first_parent_chain c) = c"
  by (subst chain_unfold) simp

lemma chain_not_Nil [simp]: "first_parent_chain c \<noteq> []"
  by (subst chain_unfold) simp

lemma chain_hd_tl: "first_parent_chain c = c # tl (first_parent_chain c)"
  using hd_chain[of c] chain_not_Nil[of c] by (cases "first_parent_chain c") auto

lemma build_loop_steps:
  "s \<noteq> [] \<Longrightarrow>
   build_loop t s a c =
     (case steps t c (tl (first_parent_chain (last s))) of
        None \<Rightarrow> Inl IndexError
      | Some N \<Rightarrow> Inr (sweep (s, a) (take N (tl (first_parent_chain (last s))))))"
proof (induction t s a c rule: build_loop.induct)
  case (1 t s a c)
  show ?case
  proof (cases "c = 0")
    case True
    then show ?thesis
      by (subst build_loop.simps) (cases "tl (first_parent_chain (last s))"; simp)
  next
    case c: False
    show ?thesis
    proof (cases "parents (last s)")
      case Nil
      then show ?thesis using c 1(2)
        by (subst build_loop.simps) (simp add: chain_root)
    next
      case (Cons n ps)
      obtain s' a' where ev: "evict n s a = (s', a')" by force
      have pl: "place n (s, a) = (s' @ [n], a')"
        by (simp add: place_def ev)
      have ch: "tl (first_parent_chain (last s)) = n # tl (first_parent_chain n)"
        using Cons chain_hd_tl[of n] by (simp add: chain_step)
      have ih: "build_loop t (s' @ [n]) a' (countdown t n c) =
         (case steps t (countdown t n c) (tl (first_parent_chain n)) of
            None \<Rightarrow> Inl IndexError
          | Some N \<Rightarrow> Inr (sweep (s' @ [n], a') (take N (tl (first_parent_chain n)))))"
        using 1(1)[OF c 1(2) Cons ev[symmetric] ] by (simp cong: option.case_cong)
      have "build_loop t s a c = build_loop t (s' @ [n]) a' (countdown t n c)"
        using c 1(2) Cons ev by (subst build_loop.simps) simp
      then show ?thesis
        using c by (simp add: ih ch pl split: option.splits)
    qed
  qed
qed


lemma steps_le: "steps t c ns = Some N \<Longrightarrow> N \<le> length ns"
  by (induction ns arbitrary: c N) (auto split: if_splits)

lemma countdown_running:
  "0 < c \<Longrightarrow> committed_datetime n \<le> t \<Longrightarrow> countdown t n c = c - 1"
  by (simp add: countdown_def)

lemma countdown_start:
  "c < 0 \<Longrightarrow> committed_datetime n < t \<Longrightarrow> countdown t n c = 199"
  by (simp add: countdown_def)

lemma countdown_idle:
  "c < 0 \<Longrightarrow> t \<le> committed_datetime n \<Longrightarrow> countdown t n c = c - 1"
  by (simp add: countdown_def)

lemma countdown_reset:
  "0 < c \<Longrightarrow> t < committed_datetime n \<Longrightarrow> countdown t n c = - 2"
  by (simp add: countdown_def)

lemma steps_running:
  "m \<le> length ns \<Longrightarrow> \<forall>x\<in>set (take m ns). committed_datetime x \<le> t \<Longrightarrow>
   steps t (int m) ns = Some m"
proof (induction m arbitrary: ns)
  case 0
  then show ?case by (cases ns) auto
next
  case (Suc m)
  then obtain n ns' where ns: "ns = n # ns'" by (cases ns) auto
  with Suc.prems have "countdown t n (int (Suc m)) = int m"
    by (simp add: countdown_running)
  with Suc ns show ?case by simp
qed

lemma steps_running_short:
  "length ns < m \<Longrightarrow> \<forall>x\<in>set ns. committed_datetime x \<le> t \<Longrightarrow>
   steps t (int m) ns = None"
proof (induction ns arbitrary: m)
  case Nil
  then show ?case by simp
next
  case (Cons n ns)
  then obtain m' where m: "m = Suc m'" by (cases m) auto
  with Cons.prems have "countdown t n (int m) = int m'"
    by (simp add: countdown_running)
  with Cons m show ?case by simp
qed

lemma steps_idle:
  "c < 0 \<Longrightarrow> \<forall>x\<in>set pre. t \<le> committed_datetime x \<Longrightarrow>
   steps t c (pre @ ns) = map_option (\<lambda>N. length pre + N) (steps t (c - int (length pre)) ns)"
proof (induction pre arbitrary: c)
  case Nil
  then show ?case by (simp add: option.map_ident)
next
  case (Cons n pre)
  then have cd: "countdown t n c = c - 1" by (simp add: countdown_idle)
  have c1: "c - 1 < 0" using Cons.prems(1) by simp
  have ih: "steps t (c - 1) (pre @ ns) =
      map_option (\<lambda>N. length pre + N) (steps t (c - 1 - int (length pre)) ns)"
    using Cons.IH[OF c1] Cons.prems(2) by simp
  have e: "c - 1 - int (length pre) = c - int (length (n # pre))" by simp
  have "steps t c ((n # pre) @ ns) = map_option Suc (steps t (c - 1) (pre @ ns))"
    using Cons.prems(1) cd by simp
  also have "\<dots> = map_option (\<lambda>N. length (n # pre) + N) (steps t (c - int (length (n # pre))) ns)"
    unfolding ih e by (simp add: option.map_comp comp_def)
  finally show ?case .
qed

lemma steps_idle_root:
  "c < 0 \<Longrightarrow> \<forall>x\<in>set ns. t \<le> committed_datetime x \<Longrightarrow> steps t c ns = None"
  using steps_idle[of c ns t "[]"] by simp

lemma steps_crossing:
  assumes "c < 0" "\<forall>x\<in>set pre. t \<le> committed_datetime x" "committed_datetime y < t"
    "\<forall>x\<in>set post. committed_datetime x \<le> t"
  shows "steps t c (pre @ y # post) =
    (if 199 \<le> length post then Some (length pre + 200) else None)"
proof -
  have c': "c - int (length pre) < 0" using assms(1) by simp
  have "steps t c (pre @ y # post) =
      map_option (\<lambda>N. length pre + N) (steps t (c - int (length pre)) (y # post))"
    using assms by (simp add: steps_idle)
  also have "steps t (c - int (length pre)) (y # post) = map_option Suc (steps t (int 199) post)"
    using c' assms(3) by (simp add: countdown_start)
  also have "steps t (int 199) post = (if 199 \<le> length post then Some 199 else None)"
    using assms(4) steps_running[of 199 post t] steps_running_short[of post 199 t]
    by (auto dest: in_set_takeD)
  finally show ?thesis by simp
qed

subsection \<open>The two lists after a sweep\<close>

lemma sweep_set:
  "sweep (s, a) ns = (s', a') \<Longrightarrow> set s' \<union> set a' = set s \<union> set a \<union> set ns"
proof (induction ns arbitrary: s a)
  case Nil
  then show ?case by auto
next
  case (Cons n ns)
  then show ?case
    by (cases "s \<noteq> [] \<and> committed_datetime n > committed_datetime (hd s)")
      (force simp: place_eq)+
qed

lemma sweep_length:
  "sweep (s, a) ns = (s', a') \<Longrightarrow> length s' + length a' = length s + length a + length ns"
proof (induction ns arbitrary: s a)
  case Nil
  then show ?case by auto
next
  case (Cons n ns)
  then show ?case
    by (cases "s \<noteq> [] \<and> committed_datetime n > committed_datetime (hd s)")
      (force simp: place_eq)+
qed

lemma sweep_distinct:
  "sweep (s, a) ns = (s', a') \<Longrightarrow> distinct (s @ a @ ns) \<Longrightarrow> distinct (s' @ a')"
proof (induction ns arbitrary: s a)
  case Nil
  then show ?case by auto
next
  case (Cons n ns)
  show ?case
  proof (cases "s \<noteq> [] \<and> committed_datetime n > committed_datetime (hd s)")
    case True
    with Cons.prems have sw: "sweep ([n], a @ rev s) ns = (s', a')"
      by (simp add: place_eq)
    have "distinct ([n] @ (a @ rev s) @ ns)"
      using Cons.prems(2) by auto
    from Cons.IH[OF sw this] show ?thesis .
  next
    case False
    with Cons.prems have sw: "sweep (s @ [n], a) ns = (s', a')"
      by (simp add: place_eq)
    have "distinct ((s @ [n]) @ a @ ns)"
      using Cons.prems(2) by auto
    from Cons.IH[OF sw this] show ?thesis .
  qed
qed

lemma sweep_ooo_grows:
  "sweep (s, a) ns = (s', a') \<Longrightarrow> set a \<subseteq> set a'"
proof (induction ns arbitrary: s a)
  case Nil
  then show ?case by auto
next
  case (Cons n ns)
  then show ?case
    by (cases "s \<noteq> [] \<and> committed_datetime n > committed_datetime (hd s)")
      (force simp: place_eq)+
qed

lemma sweep_head:
  "sweep (s, a) ns = (s', a') \<Longrightarrow> s \<noteq> [] \<Longrightarrow>
   \<forall>c\<in>set s. committed_datetime c \<le> committed_datetime (hd s) \<Longrightarrow>
   s' \<noteq> [] \<and> (\<forall>c\<in>set s'. committed_datetime c \<le> committed_datetime (hd s'))"
proof (induction ns arbitrary: s a)
  case Nil
  then show ?case by auto
next
  case (Cons n ns)
  show ?case
  proof (cases "committed_datetime n > committed_datetime (hd s)")
    case True
    with Cons.prems have sw: "sweep ([n], a @ rev s) ns = (s', a')"
      by (simp add: place_eq)
    show ?thesis by (rule Cons.IH[OF sw]) auto
  next
    case False
    with Cons.prems have sw: "sweep (s @ [n], a) ns = (s', a')"
      by (simp add: place_eq)
    show ?thesis using Cons.prems(2,3) False by (intro Cons.IH[OF sw]) auto
  qed
qed

lemma sweep_no_eviction:
  "s \<noteq> [] \<Longrightarrow> \<forall>n\<in>set ns. committed_datetime n \<le> committed_datetime (hd s) \<Longrightarrow>
   sweep (s, a) ns = (s @ ns, a)"
proof (induction ns arbitrary: s)
  case Nil
  then show ?case by simp
next
  case (Cons n ns)
  have "sweep (s @ [n], a) ns = ((s @ [n]) @ ns, a)"
    using Cons.prems by (intro Cons.IH) auto
  then show ?case using Cons.prems by (simp add: place_eq)
qed

subsection \<open>First-parent chains\<close>

lemma chain_size: "x \<in> set (first_parent_chain c) \<Longrightarrow> size x \<le> size c"
proof (induction c rule: first_parent_chain.induct)
  case (1 c)
  show ?case
  proof (cases "parents c")
    case Nil
    with 1(2) show ?thesis by (simp add: chain_root)
  next
    case (Cons p ps)
    then have "size p < size c" by (intro size_parent) simp
    with 1 Cons show ?thesis by (auto simp: chain_step)
  qed
qed

lemma chain_distinct: "distinct (first_parent_chain c)"
proof (induction c rule: first_parent_chain.induct)
  case (1 c)
  show ?case
  proof (cases "parents c")
    case Nil
    then show ?thesis by (simp add: chain_root)
  next
    case (Cons p ps)
    then have "size p < size c" by (intro size_parent) simp
    then have "c \<notin> set (first_parent_chain p)"
      using chain_size[of c p] by auto
    with 1 Cons show ?thesis by (simp add: chain_step)
  qed
qed

lemma chain_commits: "first_parent_chain (Commit [] t (history ts)) = commits (t # ts)"
proof (induction ts arbitrary: t)
  case Nil
  then show ?case by (simp add: chain_root)
next
  case (Cons u us)
  have "first_parent_chain (Commit [] t (history (u # us))) =
      Commit [] t (history (u # us)) # first_parent_chain (Commit [] u (history us))"
    by (rule chain_step) simp
  with Cons show ?case by simp
qed

lemma map_time_commits [simp]: "map committed_datetime (commits ts) = ts"
  by (induction ts) auto

lemma length_commits [simp]: "length (commits ts) = length ts"
  by (induction ts) auto

lemma time_commits: "x \<in> set (commits ts) \<Longrightarrow> committed_datetime x \<in> set ts"
  using map_time_commits[of ts] by (metis image_eqI set_map)

subsection \<open>The lineage check\<close>

lemma chain_second:
  assumes "first_parent_chain c = c # y # rest"
  shows "\<exists>ps. parents c = y # ps \<and> first_parent_chain y = y # rest"
proof (cases "parents c")
  case Nil
  with assms show ?thesis by (simp add: chain_root)
next
  case (Cons a ps)
  with assms have a: "first_parent_chain a = y # rest"
    by (simp add: chain_step)
  then have "a = y" using hd_chain[of a] by simp
  with a Cons show ?thesis by simp
qed

lemma ooo_loop_found:
  "first_parent_chain c = c # pre @ y # post \<Longrightarrow>
   \<forall>x\<in>set pre. committed_datetime x \<le> t \<Longrightarrow> t < committed_datetime y \<Longrightarrow>
   int (length pre) < m \<Longrightarrow>
   ooo_loop t m c = Inr (True, m - int (length pre) - 1)"
proof (induction pre arbitrary: c m)
  case Nil
  then obtain ps where "parents c = y # ps"
    using chain_second[of c y post] by auto
  with Nil show ?case by (subst ooo_loop.simps) simp
next
  case (Cons p pre)
  then obtain ps where ps: "parents c = p # ps"
    and ch: "first_parent_chain p = p # pre @ y # post"
    using chain_second[of c p "pre @ y # post"] by auto
  have "ooo_loop t (m - 1) p = Inr (True, m - 1 - int (length pre) - 1)"
    using Cons.prems by (intro Cons.IH[OF ch]) auto
  then show ?case using Cons.prems ps by (subst ooo_loop.simps) simp
qed

lemma ooo_loop_root:
  "\<forall>x\<in>set (tl (first_parent_chain c)). committed_datetime x \<le> t \<Longrightarrow>
   int (length (first_parent_chain c)) \<le> m \<Longrightarrow>
   ooo_loop t m c = Inl IndexError"
proof (induction c arbitrary: m rule: first_parent_chain.induct)
  case (1 c)
  show ?case
  proof (cases "parents c")
    case Nil
    with 1(3) show ?thesis by (subst ooo_loop.simps) (simp add: chain_root)
  next
    case (Cons p ps)
    then have ch: "first_parent_chain c = c # first_parent_chain p"
      by (rule chain_step)
    have "ooo_loop t (m - 1) p = Inl IndexError"
      using 1(2,3) ch chain_hd_tl[of p] by (intro 1(1)[OF Cons]) (auto dest: list.set_sel(2)[rotated])
    moreover have "committed_datetime p \<le> t"
      using 1(2) ch chain_hd_tl[of p] by (metis list.sel(3) list.set_intros(1))
    ultimately show ?thesis using Cons 1(3) ch by (subst ooo_loop.simps) auto
  qed
qed

lemma ooo_loop_exhausted:
  "m \<le> length (tl (first_parent_chain c)) \<Longrightarrow>
   \<forall>x\<in>set (take m (tl (first_parent_chain c))). committed_datetime x \<le> t \<Longrightarrow>
   ooo_loop t (int m) c = Inr (False, 0)"
proof (induction m arbitrary: c)
  case 0
  show ?case by (subst ooo_loop.simps) simp
next
  case (Suc m)
  then obtain p ps where ps: "parents c = p # ps"
    by (cases "parents c") (auto simp: chain_root)
  then have ch: "tl (first_parent_chain c) = p # tl (first_parent_chain p)"
    using chain_hd_tl[of p] by (simp add: chain_step)
  have "ooo_loop t (int m) p = Inr (False, 0)"
    using Suc.prems ch by (intro Suc.IH) auto
  then show ?case using Suc.prems ch ps by (subst ooo_loop.simps) auto
qed

subsection \<open>Ranking\<close>

lemma insort_key_first:
  "\<forall>y\<in>set ys. f x \<le> f y \<Longrightarrow> insort_key f x ys = x # ys"
  by (cases ys) auto

lemma sort_key_first_min:
  "\<forall>x\<in>set pre. f m < f x \<Longrightarrow> \<forall>x\<in>set post. f m \<le> f x \<Longrightarrow>
   sort_key f (pre @ m # post) = m # sort_key f (pre @ post)"
proof (induction pre)
  case Nil
  then show ?case by (simp add: insort_key_first)
next
  case (Cons p pre)
  then show ?case by (auto simp: not_le)
qed

lemma sort_key_hd_le:
  assumes "x \<in> set xs"
  shows "f (hd (sort_key f xs)) \<le> f x"
proof -
  have s: "sorted (map f (sort_key f xs))" by (rule sorted_sort_key)
  have x: "x \<in> set (sort_key f xs)" using assms by simp
  then obtain y ys where ys: "sort_key f xs = y # ys" by (cases "sort_key f xs") auto
  with s x show ?thesis by auto
qed

lemma first_two_Inr:
  "xs \<noteq> [] \<Longrightarrow> first_two xs = Inr (hd xs, if length xs < 2 then None else Some (xs ! 1))"
  by (cases xs) (auto simp: first_two_def)

lemma rank_Nil_iff [simp]: "rank t xs = [] \<longleftrightarrow> xs = []"
  unfolding rank_def by (metis length_0_conv length_sort)

lemma set_rank [simp]: "set (rank t xs) = set xs"
  by (simp add: rank_def)

lemma length_rank [simp]: "length (rank t xs) = length xs"
  by (simp add: rank_def)

lemma first_two_members:
  assumes "first_two xs = Inr (b, sb)"
  shows "b \<in> set xs \<and> (\<forall>c. sb = Some c \<longrightarrow> c \<in> set xs)"
proof (cases xs)
  case Nil
  with assms show ?thesis by (simp add: first_two_def)
next
  case (Cons x rest)
  with assms show ?thesis
    by (cases rest) (auto simp: first_two_def)
qed

lemma select_closest_members:
  assumes "select_closest a t g s a' = Inr (b, sb)"
  shows "b \<in> set (merge_filter a t g s a') \<and> (\<forall>c. sb = Some c \<longrightarrow> c \<in> set (merge_filter a t g s a'))"
  using first_two_members[OF assms[unfolded select_closest_def]] by simp

subsection \<open>Runs of the stack builder\<close>

lemma build_loop_crossing:
  assumes "first_parent_chain tip = tip # pre @ y # post"
    "\<forall>x\<in>set pre. t \<le> committed_datetime x" "committed_datetime y < t"
    "\<forall>x\<in>set post. committed_datetime x \<le> t"
  shows "build_loop t [tip] [] (- 1) =
    (if 199 \<le> length post then Inr (sweep ([tip], []) (pre @ y # take 199 post))
     else Inl IndexError)"
proof -
  have st: "steps t (- 1) (pre @ y # post) =
      (if 199 \<le> length post then Some (length pre + 200) else None)"
    using assms(2-4) by (intro steps_crossing) auto
  have "build_loop t [tip] [] (- 1) =
      (case steps t (- 1) (pre @ y # post) of
         None \<Rightarrow> Inl IndexError
       | Some N \<Rightarrow> Inr (sweep ([tip], []) (take N (pre @ y # post))))"
    using build_loop_steps[of "[tip]" t "[]" "- 1"] assms(1)
    by (simp cong: option.case_cong)
  then show ?thesis by (simp add: st)
qed

lemma take_crossing:
  "take (Suc (length pre) + 200) (tip # pre @ y # post) = tip # pre @ y # take 199 post"
proof -
  have "take (Suc (length pre + 200)) (tip # pre @ y # post) =
      tip # take (length pre + 200) (pre @ y # post)"
    by (rule take_Suc_Cons)
  also have "take (length pre + 200) (pre @ y # post) = pre @ take 200 (y # post)"
    by simp
  also have "take 200 (y # post) = y # take 199 post"
    by simp
  finally show ?thesis by simp
qed

lemma build_loop_never_crossing:
  assumes "\<forall>x\<in>set (tl (first_parent_chain tip)). t \<le> committed_datetime x"
  shows "build_loop t [tip] [] (- 1) = Inl IndexError"
  using build_loop_steps[of "[tip]" t "[]" "- 1"] steps_idle_root[OF _ assms, of "- 1"]
  by simp

lemma build_loop_result:
  assumes "build_loop t [tip] [] (- 1) = Inr (s, a)"
  obtains N where "N \<le> length (tl (first_parent_chain tip))"
    and "sweep ([tip], []) (take N (tl (first_parent_chain tip))) = (s, a)"
    and "steps t (- 1) (tl (first_parent_chain tip)) = Some N"
proof -
  from assms build_loop_steps[of "[tip]" t "[]" "- 1"]
  obtain N where N: "steps t (- 1) (tl (first_parent_chain tip)) = Some N"
    and sw: "sweep ([tip], []) (take N (tl (first_parent_chain tip))) = (s, a)"
    by (auto split: option.splits)
  from steps_le[OF N] sw N that show ?thesis by blast
qed

lemma take_Suc_chain:
  "take (Suc N) (first_parent_chain c) = c # take N (tl (first_parent_chain c))"
  by (subst chain_hd_tl) simp

lemma find_closest_commits_eq:
  assumes "ooo_loop (committed_datetime target_commit) 200 target_commit = Inr (found, n)"
    "start_commit r branch = Inr tip"
    "build_loop (committed_datetime target_commit) [tip] [] (- 1) = Inr (s, a')"
  shows "find_closest_commits a r target_commit branch =
    select_closest a (committed_datetime target_commit) (found \<or> search_out_of_order a) s a'"
proof -
  have "(if search_out_of_order a \<and> \<not> found then True else found) = (found \<or> search_out_of_order a)"
    by auto
  then show ?thesis using assms by (simp add: find_closest_commits_def Let_def)
qed

lemma build_loop_step:
  assumes "c \<noteq> 0" "s \<noteq> []" "parents (last s) = n # ps"
  shows "build_loop t s a c =
    build_loop t (fst (place n (s, a))) (snd (place n (s, a))) (countdown t n c)"
  using assms by (subst build_loop.simps) (simp add: place_def split: prod.splits)

subsection \<open>Runs on linear histories\<close>

lemma commits_times_take: "x \<in> set (take k (commits ts)) \<Longrightarrow> committed_datetime x \<in> set (take k ts)"
proof -
  assume "x \<in> set (take k (commits ts))"
  then have "committed_datetime x \<in> set (map committed_datetime (take k (commits ts)))"
    by simp
  then show ?thesis by (simp add: take_map[symmetric] del: set_map)
qed

lemma commits_times_drop: "x \<in> set (drop k (commits ts)) \<Longrightarrow> committed_datetime x \<in> set (drop k ts)"
proof -
  assume "x \<in> set (drop k (commits ts))"
  then have "committed_datetime x \<in> set (map committed_datetime (drop k (commits ts)))"
    by simp
  then show ?thesis by (simp add: drop_map[symmetric] del: set_map)
qed

lemma commits_time_nth: "k < length ts \<Longrightarrow> committed_datetime (commits ts ! k) = ts ! k"
  using nth_map[of k "commits ts" committed_datetime] by simp

lemma build_loop_history:
  assumes "k < length ts" "\<forall>x\<in>set (take k ts). t \<le> x" "ts ! k < t"
    "\<forall>x\<in>set (drop (Suc k) ts). x \<le> t" "length ts = k + 200"
  shows "build_loop t [Commit [] t0 (history ts)] [] (- 1) =
    Inr (sweep ([Commit [] t0 (history ts)], []) (commits ts))"
proof -
  let ?tip = "Commit [] t0 (history ts)" and ?cs = "commits ts"
  have split: "?cs = take k ?cs @ ?cs ! k # drop (Suc k) ?cs"
    using assms(1) by (intro id_take_nth_drop) simp
  have ch: "first_parent_chain ?tip = ?tip # take k ?cs @ ?cs ! k # drop (Suc k) ?cs"
    using split by (simp add: chain_commits)
  have len: "length (drop (Suc k) ?cs) = 199"
    using assms(5) by simp
  have "build_loop t [?tip] [] (- 1) =
      (if 199 \<le> length (drop (Suc k) ?cs)
       then Inr (sweep ([?tip], []) (take k ?cs @ ?cs ! k # take 199 (drop (Suc k) ?cs)))
       else Inl IndexError)"
  proof (rule build_loop_crossing[OF ch])
    show "\<forall>x\<in>set (take k ?cs). t \<le> committed_datetime x"
      using assms(2) commits_times_take by blast
    show "committed_datetime (?cs ! k) < t"
      using assms(1,3) by (simp add: commits_time_nth)
    show "\<forall>x\<in>set (drop (Suc k) ?cs). committed_datetime x \<le> t"
      using assms(4) commits_times_drop by blast
  qed
  also have "take 199 (drop (Suc k) ?cs) = drop (Suc k) ?cs"
    using len by simp
  finally show ?thesis using len split by simp
qed

lemma sweep_history:
  assumes "\<forall>x\<in>set ts. x \<le> t0"
  shows "sweep ([Commit [] t0 (history ts)], a) (commits ts) = (commits (t0 # ts), a)"
proof -
  have "sweep ([Commit [] t0 (history ts)], a) (commits ts) =
      ([Commit [] t0 (history ts)] @ commits ts, a)"
    using assms time_commits by (intro sweep_no_eviction) auto
  then show ?thesis by simp
qed

lemma ooo_loop_history:
  assumes "length ts = 200" "\<forall>x\<in>set ts. x \<le> t"
  shows "ooo_loop t 200 (Commit [] t0 (history ts)) = Inr (False, 0)"
proof -
  have tl: "tl (first_parent_chain (Commit [] t0 (history ts))) = commits ts"
    by (simp add: chain_commits)
  have "ooo_loop t (int 200) (Commit [] t0 (history ts)) = Inr (False, 0)"
    unfolding atomize_imp
    using assms time_commits by (intro ooo_loop_exhausted) (auto simp: tl)
  then show ?thesis by simp
qed

lemma run_10_5_7:
  "build_loop 8 [Commit [] 10 (history (5 # 7 # replicate 198 0))] [] (- 1) =
     Inr (commits (10 # 5 # 7 # replicate 198 0), [])"
proof -
  have "build_loop 8 [Commit [] 10 (history (5 # 7 # replicate 198 0))] [] (- 1) =
      Inr (sweep ([Commit [] 10 (history (5 # 7 # replicate 198 0))], [])
        (commits (5 # 7 # replicate 198 0)))"
    by (rule build_loop_history[where k = 0]) auto
  also have "sweep ([Commit [] 10 (history (5 # 7 # replicate 198 0))], [])
        (commits (5 # 7 # replicate 198 0)) = (commits (10 # 5 # 7 # replicate 198 0), [])"
    by (rule sweep_history) auto
  finally show ?thesis .
qed

lemma run_5_10_7:
  "build_loop 8 [Commit [] 5 (history (10 # 7 # replicate 199 0))] [] (- 1) =
     Inr (commits (10 # 7 # replicate 199 0), [Commit [] 5 (history (10 # 7 # replicate 199 0))])"
proof -
  let ?tip = "Commit [] 5 (history (10 # 7 # replicate 199 0))"
  have "build_loop 8 [?tip] [] (- 1) =
      Inr (sweep ([?tip], []) (commits (10 # 7 # replicate 199 0)))"
    by (rule build_loop_history[where k = 1]) auto
  also have "sweep ([?tip], []) (commits (10 # 7 # replicate 199 0)) =
      sweep ([Commit [] 10 (history (7 # replicate 199 0))], [?tip]) (commits (7 # replicate 199 0))"
    by (simp add: place_eq del: history.simps)
  also have "\<dots> = (commits (10 # 7 # replicate 199 0), [?tip])"
    by (rule sweep_history) auto
  finally show ?thesis .
qed

lemma build_loop_partition:
  assumes "build_loop t [tip] [] (- 1) = Inr (s, a)"
  shows "set s \<inter> set a = {} \<and> distinct s \<and> distinct a \<and>
    set s \<union> set a = set (take (length s + length a) (first_parent_chain tip))"
proof -
  from assms obtain N where N: "N \<le> length (tl (first_parent_chain tip))"
    and sw: "sweep ([tip], []) (take N (tl (first_parent_chain tip))) = (s, a)"
    by (rule build_loop_result)
  have len: "length s + length a = Suc N"
    using sweep_length[OF sw] N by simp
  have "distinct (take (Suc N) (first_parent_chain tip))"
    using chain_distinct by (rule distinct_take)
  then have "distinct ([tip] @ [] @ take N (tl (first_parent_chain tip)))"
    by (simp add: take_Suc_chain)
  from sweep_distinct[OF sw this] have d: "distinct (s @ a)" .
  have "set s \<union> set a = set (take (Suc N) (first_parent_chain tip))"
    using sweep_set[OF sw] by (simp add: take_Suc_chain)
  with d len show ?thesis by auto
qed

lemma first_two_rank:
  assumes "\<forall>x\<in>set pre. distance t m < distance t x" "\<forall>x\<in>set post. distance t m \<le> distance t x"
    "pre @ post = pre' @ m' # post'"
    "\<forall>x\<in>set pre'. distance t m' < distance t x" "\<forall>x\<in>set post'. distance t m' \<le> distance t x"
  shows "first_two (rank t (pre @ m # post)) = Inr (m, Some m')"
proof -
  have "rank t (pre @ m # post) = m # rank t (pre @ post)"
    unfolding rank_def using assms(1,2) by (rule sort_key_first_min)
  also have "rank t (pre @ post) = m' # rank t (pre' @ post')"
    unfolding rank_def assms(3) using assms(4,5) by (rule sort_key_first_min)
  finally show ?thesis by (simp add: first_two_def)
qed

lemma ooo_loop_error: "ooo_loop t m c = Inl e \<Longrightarrow> e = IndexError"
proof (induction t m c rule: ooo_loop.induct)
  case (1 t m c)
  from 1(2) show ?case
    by (subst (asm) ooo_loop.simps) (auto split: if_splits list.splits dest: 1(1))
qed

lemma build_loop_tip_evicted:
  assumes "parents tip = p # ps" "committed_datetime tip < committed_datetime p"
    "build_loop t [tip] [] (- 1) = Inr (s, a)"
  shows "tip \<in> set a \<and> tip \<notin> set s"
proof -
  from assms(3) obtain N where
    sw: "sweep ([tip], []) (take N (tl (first_parent_chain tip))) = (s, a)"
    and st: "steps t (- 1) (tl (first_parent_chain tip)) = Some N"
    by (rule build_loop_result)
  have tl: "tl (first_parent_chain tip) = p # tl (first_parent_chain p)"
    using assms(1) chain_hd_tl[of p] by (simp add: chain_step)
  from st obtain N' where N: "N = Suc N'"
    by (auto simp: tl)
  have "sweep ([p], [tip]) (take N' (tl (first_parent_chain p))) = (s, a)"
    using sw assms(2) by (simp add: tl N place_eq)
  from sweep_ooo_grows[OF this] have "tip \<in> set a" by simp
  moreover have "set s \<inter> set a = {}"
    using build_loop_partition[OF assms(3)] by simp
  ultimately show ?thesis by auto
qed

lemma distance_commits:
  "x \<in> set (commits (replicate k u)) \<Longrightarrow> distance t x = \<bar>u - t\<bar>"
  using time_commits[of x "replicate k u"] by (auto simp: distance_def)

lemma find_closest_commits_short:
  assumes "first_parent_chain tip = [c15, c09, c08]"
    "committed_datetime c09 < committed_datetime target_commit"
    "committed_datetime c08 \<le> committed_datetime target_commit"
    "start_commit r branch = Inr tip"
  shows "find_closest_commits a r target_commit branch = Inl IndexError"
proof -
  let ?t = "committed_datetime target_commit"
  have tip: "tip = c15" using hd_chain[of tip] assms(1) by simp
  have ch: "first_parent_chain tip = tip # [] @ c09 # [c08]"
    using assms(1) tip by simp
  have "build_loop ?t [tip] [] (- 1) =
      (if 199 \<le> length [c08] then Inr (sweep ([tip], []) ([] @ c09 # take 199 [c08]))
       else Inl IndexError)"
    using assms(2,3) by (intro build_loop_crossing[OF ch]) auto
  then have b: "build_loop ?t [tip] [] (- 1) = Inl IndexError" by simp
  show ?thesis
  proof (cases "ooo_loop ?t 200 target_commit")
    case (Inl e)
    then have "e = IndexError" by (rule ooo_loop_error)
    with Inl show ?thesis by (simp add: find_closest_commits_def)
  next
    case (Inr res)
    with b assms(4) show ?thesis
      by (cases res) (simp add: find_closest_commits_def)
  qed
qed

section \<open>The claims\<close>

subsection \<open>C1: ranking by distance\<close>

text \<open>
  Claim C1. The selector is \<open>first_two\<close> of the ranked list of the merged and filtered
  candidates. For any list \<open>xs\<close>, the ranked list is ascending in absolute distance to the
  reference time and is a stable rearrangement of \<open>xs\<close>: for every distance \<open>k\<close> the
  commits at distance \<open>k\<close> appear in the order they have in \<open>xs\<close>. The result is the
  first ranked element, with the second one beside it, and the second is \<open>None\<close> exactly
  when \<open>xs\<close> has fewer than two entries; on an empty list \<^verbatim>\<open>stack[0]\<close> raises. The last
  conjunct spells the tie-break out: a commit that is strictly closer than everything
  before it in \<open>xs\<close> and no farther than everything after it is ranked first.
\<close>

theorem C1_ranking:
  "select_closest a t g s a' = first_two (rank t (merge_filter a t g s a'))
   \<and> sorted (map (distance t) (rank t xs))
   \<and> (\<forall>k. filter (\<lambda>c. distance t c = k) (rank t xs) = filter (\<lambda>c. distance t c = k) xs)
   \<and> length (rank t xs) = length xs
   \<and> (xs = [] \<longrightarrow> first_two (rank t xs) = Inl IndexError)
   \<and> (xs \<noteq> [] \<longrightarrow> first_two (rank t xs) =
         Inr (rank t xs ! 0, if length xs < 2 then None else Some (rank t xs ! 1)))
   \<and> ((\<forall>x\<in>set pre. distance t m < distance t x) \<and> (\<forall>x\<in>set post. distance t m \<le> distance t x)
        \<longrightarrow> rank t (pre @ m # post) = m # rank t (pre @ post))"
proof (intro conjI impI allI)
  show "select_closest a t g s a' = first_two (rank t (merge_filter a t g s a'))"
    by (simp add: select_closest_def)
  show "sorted (map (distance t) (rank t xs))"
    by (simp add: rank_def)
  show "filter (\<lambda>c. distance t c = k) (rank t xs) = filter (\<lambda>c. distance t c = k) xs" for k
    unfolding rank_def by (rule sort_key_stable)
  show "length (rank t xs) = length xs" by simp
  show "first_two (rank t xs) = Inl IndexError" if "xs = []"
    using that by (simp add: rank_def first_two_def)
  show "first_two (rank t xs) =
      Inr (rank t xs ! 0, if length xs < 2 then None else Some (rank t xs ! 1))" if "xs \<noteq> []"
    using that first_two_Inr[of "rank t xs"] by (simp add: hd_conv_nth)
  show "rank t (pre @ m # post) = m # rank t (pre @ post)"
    if "(\<forall>x\<in>set pre. distance t m < distance t x) \<and> (\<forall>x\<in>set post. distance t m \<le> distance t x)"
    using that unfolding rank_def by (intro sort_key_first_min) auto
qed

theorem C1_ranking_witness:
  "first_two (rank 10 [Commit ''a'' 13 [], Commit ''b'' 7 [], Commit ''c'' 12 []]) =
     Inr (Commit ''c'' 12 [], Some (Commit ''a'' 13 []))
   \<and> first_two (rank 10 [Commit ''a'' 13 []]) = Inr (Commit ''a'' 13 [], None)"
  using C1_ranking[of _ 10 _ _ _ "[Commit ''a'' 13 [], Commit ''b'' 7 [], Commit ''c'' 12 []]"
      "[Commit ''a'' 13 [], Commit ''b'' 7 []]" "Commit ''c'' 12 []" "[]"]
    C1_ranking[of _ 10 _ _ _ "[Commit ''a'' 13 []]" "[]" "Commit ''a'' 13 []" "[]"]
  by (simp add: rank_def distance_def)

subsection \<open>C5: the lineage check finds an inversion\<close>

text \<open>
  Claim C5. If the first-parent chain of \<open>c\<close> is \<open>c # pre @ y # post\<close>, where no commit of
  \<open>pre\<close> is later than \<open>c\<close>, \<open>y\<close> is strictly later than \<open>c\<close>, and \<open>y\<close> is within the 200
  steps, then the check returns \<open>True\<close> and leaves the loop with
  \<open>count = 200 - (length pre + 1)\<close>: it has made exactly \<open>length pre + 1\<close> parent lookups, the
  last of them the one that reached \<open>y\<close>. In particular, when the direct parent of \<open>c\<close> is
  later than \<open>c\<close> it returns \<open>True\<close> after exactly one lookup.
\<close>

theorem C5_detects_inversion:
  "(first_parent_chain c = c # pre @ y # post \<and>
      (\<forall>x\<in>set pre. committed_datetime x \<le> committed_datetime c) \<and>
      committed_datetime c < committed_datetime y \<and> length pre < 200
    \<longrightarrow> ooo_loop (committed_datetime c) 200 c = Inr (True, 200 - (int (length pre) + 1)))
   \<and> (parents c = p # ps \<and> committed_datetime c < committed_datetime p
    \<longrightarrow> ooo_loop (committed_datetime c) 200 c = Inr (True, 200 - 1))"
proof (intro conjI impI)
  assume "first_parent_chain c = c # pre @ y # post \<and>
      (\<forall>x\<in>set pre. committed_datetime x \<le> committed_datetime c) \<and>
      committed_datetime c < committed_datetime y \<and> length pre < 200"
  then show "ooo_loop (committed_datetime c) 200 c = Inr (True, 200 - (int (length pre) + 1))"
    using ooo_loop_found[of c pre y post "committed_datetime c" 200] by simp
next
  assume "parents c = p # ps \<and> committed_datetime c < committed_datetime p"
  then show "ooo_loop (committed_datetime c) 200 c = Inr (True, 200 - 1)"
    by (subst ooo_loop.simps) simp
qed

theorem C5_detects_inversion_witness:
  "ooo_loop 5 200 (Commit [] 5 (history [3, 9, 1])) = Inr (True, 198) \<and>
   ooo_loop 5 200 (Commit [] 5 (history [9])) = Inr (True, 199)"
proof -
  have ch1: "first_parent_chain (Commit [] 5 (history [3, 9, 1])) = commits [5, 3, 9, 1]"
    by (rule chain_commits)
  have ch2: "first_parent_chain (Commit [] 5 (history [9])) = commits [5, 9]"
    by (rule chain_commits)
  show ?thesis
    using C5_detects_inversion[of "Commit [] 5 (history [3, 9, 1])"
        "[Commit [] 3 (history [9, 1])]" "Commit [] 9 (history [1])" "[Commit [] 1 []]"
        "Commit [] 9 []" "[]"]
      C5_detects_inversion[of "Commit [] 5 (history [9])" "[]" "Commit [] 9 []" "[]"
        "Commit [] 9 []" "[]"] ch1 ch2
    by simp
qed

subsection \<open>C7: the one-sided filters\<close>

text \<open>
  Claim C7. Whenever the selector returns, under \<^verbatim>\<open>always_after\<close> both returned commits
  are at or after the reference time; under \<^verbatim>\<open>always_before\<close> with \<^verbatim>\<open>always_after\<close> unset
  both are strictly before it. The two filters are the branches of one
  \<^verbatim>\<open>if\<close>/\<^verbatim>\<open>elif\<close>, so at most one runs: with \<^verbatim>\<open>always_after\<close> set, the value of
  \<^verbatim>\<open>always_before\<close> has no effect on the result.
\<close>

theorem C7_one_sided_filter:
  assumes "select_closest a t g s a' = Inr (best, second)"
  shows "(always_after a \<longrightarrow>
            t \<le> committed_datetime best \<and> (\<forall>c. second = Some c \<longrightarrow> t \<le> committed_datetime c))
       \<and> (always_before a \<and> \<not> always_after a \<longrightarrow>
            committed_datetime best < t \<and> (\<forall>c. second = Some c \<longrightarrow> committed_datetime c < t))
       \<and> (always_after a \<longrightarrow>
            select_closest a t g s a' = select_closest (a\<lparr>always_before := False\<rparr>) t g s a')"
proof -
  note m = select_closest_members[OF assms]
  show ?thesis
  proof (intro conjI impI allI)
    assume "always_after a"
    then have *: "\<forall>c\<in>set (merge_filter a t g s a'). t \<le> committed_datetime c"
      by (auto simp: merge_filter_def Let_def)
    show "t \<le> committed_datetime best" using m * by blast
    show "t \<le> committed_datetime c" if "second = Some c" for c using m * that by blast
    show "select_closest a t g s a' = select_closest (a\<lparr>always_before := False\<rparr>) t g s a'"
      using \<open>always_after a\<close> by (simp add: select_closest_def merge_filter_def)
  next
    assume "always_before a \<and> \<not> always_after a"
    then have *: "\<forall>c\<in>set (merge_filter a t g s a'). committed_datetime c < t"
      by (auto simp: merge_filter_def Let_def)
    show "committed_datetime best < t" using m * by blast
    show "committed_datetime c < t" if "second = Some c" for c using m * that by blast
  qed
qed

theorem C7_one_sided_filter_witness:
  "select_closest \<lparr>search_out_of_order = False, always_after = True, always_before = False\<rparr>
     10 False [Commit ''a'' 13 [], Commit ''b'' 7 [], Commit ''c'' 12 []] [] =
     Inr (Commit ''c'' 12 [], Some (Commit ''a'' 13 []))
   \<and> (10::int) \<le> committed_datetime (Commit ''c'' 12 [])
   \<and> (10::int) \<le> committed_datetime (Commit ''a'' 13 [])
   \<and> select_closest \<lparr>search_out_of_order = False, always_after = False, always_before = True\<rparr>
     10 False [Commit ''a'' 13 [], Commit ''b'' 7 [], Commit ''c'' 12 []] [] =
     Inr (Commit ''b'' 7 [], None)
   \<and> committed_datetime (Commit ''b'' 7 []) < (10::int)"
proof -
  have after: "select_closest
      \<lparr>search_out_of_order = False, always_after = True, always_before = False\<rparr>
      10 False [Commit ''a'' 13 [], Commit ''b'' 7 [], Commit ''c'' 12 []] [] =
      Inr (Commit ''c'' 12 [], Some (Commit ''a'' 13 []))"
    by (simp add: select_closest_def merge_filter_def rank_def distance_def first_two_def)
  have before: "select_closest
      \<lparr>search_out_of_order = False, always_after = False, always_before = True\<rparr>
      10 False [Commit ''a'' 13 [], Commit ''b'' 7 [], Commit ''c'' 12 []] [] =
      Inr (Commit ''b'' 7 [], None)"
    by (simp add: select_closest_def merge_filter_def rank_def distance_def first_two_def)
  show ?thesis
    using C7_one_sided_filter[OF after] C7_one_sided_filter[OF before] after before
    by simp
qed

subsection \<open>C8: merging the anomalies never gives a farther best commit\<close>

text \<open>
  Claim C8. If the candidates alone leave something to select from (the stack, after
  the policy's filter, is not empty; without a filter that is any non-empty stack),
  then the selector returns both without and with the anomalies merged in, and the best
  commit with the anomalies is at most as far from the reference time as the best
  commit without them.
\<close>

theorem C8_anomalies_never_worse:
  assumes "merge_filter a t False s a' \<noteq> []"
  shows "\<exists>best second best' second'.
           select_closest a t False s a' = Inr (best, second) \<and>
           select_closest a t True s a' = Inr (best', second') \<and>
           distance t best' \<le> distance t best"
proof -
  let ?xs = "merge_filter a t False s a'" and ?ys = "merge_filter a t True s a'"
  have sub: "set ?xs \<subseteq> set ?ys"
    by (auto simp: merge_filter_def)
  with assms have ys: "?ys \<noteq> []" by auto
  have x: "select_closest a t False s a' =
      Inr (hd (rank t ?xs), if length (rank t ?xs) < 2 then None else Some (rank t ?xs ! 1))"
    unfolding select_closest_def using assms by (intro first_two_Inr) simp
  have y: "select_closest a t True s a' =
      Inr (hd (rank t ?ys), if length (rank t ?ys) < 2 then None else Some (rank t ?ys ! 1))"
    unfolding select_closest_def using ys by (intro first_two_Inr) simp
  have "hd (rank t ?xs) \<in> set (rank t ?xs)"
    using assms by (intro hd_in_set) simp
  then have "hd (rank t ?xs) \<in> set ?ys" using sub by auto
  then have "distance t (hd (rank t ?ys)) \<le> distance t (hd (rank t ?xs))"
    unfolding rank_def by (rule sort_key_hd_le)
  with x y show ?thesis by blast
qed

theorem C8_anomalies_never_worse_witness:
  "select_closest \<lparr>search_out_of_order = False, always_after = False, always_before = False\<rparr>
     10 False [Commit ''a'' 13 []] [Commit ''b'' 11 []] = Inr (Commit ''a'' 13 [], None)
   \<and> select_closest \<lparr>search_out_of_order = False, always_after = False, always_before = False\<rparr>
     10 True [Commit ''a'' 13 []] [Commit ''b'' 11 []] =
     Inr (Commit ''b'' 11 [], Some (Commit ''a'' 13 []))
   \<and> distance 10 (Commit ''b'' 11 []) \<le> distance 10 (Commit ''a'' 13 [])"
  using C8_anomalies_never_worse[of
      "\<lparr>search_out_of_order = False, always_after = False, always_before = False\<rparr>"
      10 "[Commit ''a'' 13 []]" "[Commit ''b'' 11 []]"]
  by (simp add: select_closest_def merge_filter_def rank_def distance_def first_two_def)

subsection \<open>C2: reaching the root of history\<close>

text \<open>
  Claim C2 says that reaching a commit without parents ends either loop normally. Both
  loops read \<^verbatim>\<open>parents[0]\<close> without a test, so on a root commit they raise
  \<^verbatim>\<open>IndexError\<close>: the lineage check of a commit with a two-commit history does not
  return \<open>False\<close>, and the stack builder on a three-commit history that is entirely
  newer than the reference time does not return a stack.
\<close>

theorem C2_root_is_an_error:
  "ooo_loop 5 200 (Commit [] 5 (history [3])) = Inl IndexError
   \<and> build_loop 5 [Commit [] 10 (history [9, 8])] [] (- 1) = Inl IndexError"
proof -
  have ch1: "first_parent_chain (Commit [] 5 (history [3])) = commits [5, 3]"
    by (rule chain_commits)
  have ch2: "first_parent_chain (Commit [] 10 (history [9, 8])) = commits [10, 9, 8]"
    by (rule chain_commits)
  have 1: "ooo_loop 5 200 (Commit [] 5 (history [3])) = Inl IndexError"
    by (rule ooo_loop_root) (simp_all add: ch1 del: history.simps)
  have 2: "build_loop 5 [Commit [] 10 (history [9, 8])] [] (- 1) = Inl IndexError"
    by (rule build_loop_never_crossing) (simp add: ch2 del: history.simps)
  from 1 2 show ?thesis by blast
qed

text \<open>
  Claim C2, as the code has it. If no ancestor of \<open>c\<close> is later than \<open>c\<close> and the
  first-parent chain of \<open>c\<close> has at most 200 commits (the root is reached within the 200
  steps), the lineage check raises \<^verbatim>\<open>IndexError\<close>, and so does the search. If no ancestor
  of the tip is earlier than the reference time, the countdown never starts, the
  traversal walks to the root and raises \<^verbatim>\<open>IndexError\<close> there; the search raises it too
  whenever the lineage check and the lookup of the tip have succeeded.
\<close>

theorem C2_root_raises:
  "((\<forall>x\<in>set (tl (first_parent_chain c)). committed_datetime x \<le> committed_datetime c) \<and>
      length (first_parent_chain c) \<le> 200
      \<longrightarrow> ooo_loop (committed_datetime c) 200 c = Inl IndexError \<and>
          find_closest_commits a r c branch = Inl IndexError)
   \<and> ((\<forall>x\<in>set (tl (first_parent_chain tip)). t \<le> committed_datetime x)
      \<longrightarrow> build_loop t [tip] [] (- 1) = Inl IndexError)
   \<and> ((\<forall>x\<in>set (tl (first_parent_chain tip)). committed_datetime c \<le> committed_datetime x) \<and>
      start_commit r branch = Inr tip \<and> ooo_loop (committed_datetime c) 200 c = Inr res
      \<longrightarrow> find_closest_commits a r c branch = Inl IndexError)"
proof (intro conjI impI)
  assume h: "(\<forall>x\<in>set (tl (first_parent_chain c)). committed_datetime x \<le> committed_datetime c) \<and>
      length (first_parent_chain c) \<le> 200"
  then show o: "ooo_loop (committed_datetime c) 200 c = Inl IndexError"
    by (intro ooo_loop_root) auto
  show "find_closest_commits a r c branch = Inl IndexError"
    by (simp add: find_closest_commits_def o)
next
  assume "\<forall>x\<in>set (tl (first_parent_chain tip)). t \<le> committed_datetime x"
  then show "build_loop t [tip] [] (- 1) = Inl IndexError"
    by (rule build_loop_never_crossing)
next
  assume h: "(\<forall>x\<in>set (tl (first_parent_chain tip)). committed_datetime c \<le> committed_datetime x) \<and>
      start_commit r branch = Inr tip \<and> ooo_loop (committed_datetime c) 200 c = Inr res"
  then have "build_loop (committed_datetime c) [tip] [] (- 1) = Inl IndexError"
    by (intro build_loop_never_crossing) auto
  with h show "find_closest_commits a r c branch = Inl IndexError"
    by (cases res) (simp add: find_closest_commits_def)
qed

theorem C2_root_raises_witness:
  "ooo_loop 5 200 (Commit [] 5 (history [4, 3])) = Inl IndexError
   \<and> build_loop 5 [Commit [] 9 (history [8, 7, 6])] [] (- 1) = Inl IndexError
   \<and> find_closest_commits \<lparr>search_out_of_order = False, always_after = False, always_before = False\<rparr>
       \<lparr>head_commit = Commit [] 9 (history [8, 7, 6]),
        commit_named = (\<lambda>name. Some (Commit [] 9 (history [8, 7, 6])))\<rparr>
       (Commit [] 5 (history (replicate 200 5))) ''master'' = Inl IndexError"
proof -
  let ?a = "\<lparr>search_out_of_order = False, always_after = False, always_before = False\<rparr>"
  let ?tip = "Commit [] 9 (history [8, 7, 6])"
  let ?r = "\<lparr>head_commit = ?tip, commit_named = (\<lambda>name. Some ?tip)\<rparr>"
  let ?c = "Commit [] 5 (history (replicate 200 5))"
  have ch1: "first_parent_chain (Commit [] 5 (history [4, 3])) = commits [5, 4, 3]"
    by (rule chain_commits)
  have ch2: "first_parent_chain ?tip = commits [9, 8, 7, 6]"
    by (rule chain_commits)
  have ref: "ooo_loop (committed_datetime ?c) 200 ?c = Inr (False, 0)"
    using ooo_loop_history[of "replicate 200 5" 5 5] by simp
  have st: "start_commit ?r ''master'' = Inr ?tip"
    by (simp add: start_commit_def)
  have 1: "ooo_loop 5 200 (Commit [] 5 (history [4, 3])) = Inl IndexError"
    using C2_root_raises[of "Commit [] 5 (history [4, 3])"] ch1 by simp
  have 2: "build_loop 5 [?tip] [] (- 1) = Inl IndexError"
    using C2_root_raises[of _ _ _ _ ?tip 5] ch2 by simp
  have 3: "find_closest_commits ?a ?r ?c ''master'' = Inl IndexError"
    using C2_root_raises[of ?c ?a ?r "''master''" ?tip _ "(False, 0)"] ch2 ref st by simp
  from 1 2 3 show ?thesis by blast
qed

subsection \<open>C3: the order of the candidate stack\<close>

text \<open>
  Claim C3 says that each appended commit is no later than the one appended before it,
  so that the finished stack is non-increasing in time. The inner loop compares the
  next commit with \<^verbatim>\<open>stack[0]\<close>, not with \<^verbatim>\<open>stack[-1]\<close>: on a history with the times
  10, 5, 7, 0, 0, ... and the reference time 8 nothing is evicted, and the finished
  stack begins 10, 5, 7.
\<close>

theorem C3_stack_not_sorted:
  "build_loop 8 [Commit [] 10 (history (5 # 7 # replicate 198 0))] [] (- 1) =
     Inr (commits (10 # 5 # 7 # replicate 198 0), [])
   \<and> map committed_datetime (take 3 (commits (10 # 5 # 7 # replicate 198 0))) = [10, 5, 7]
   \<and> \<not> sorted_wrt (\<ge>) (map committed_datetime (commits (10 # 5 # 7 # replicate 198 0)))"
proof (intro conjI)
  show "build_loop 8 [Commit [] 10 (history (5 # 7 # replicate 198 0))] [] (- 1) =
     Inr (commits (10 # 5 # 7 # replicate 198 0), [])"
    by (rule run_10_5_7)
  show "map committed_datetime (take 3 (commits (10 # 5 # 7 # replicate 198 0))) = [10, 5, 7]"
    by (simp add: take_map[symmetric] del: commits.simps)
  show "\<not> sorted_wrt (\<ge>) (map committed_datetime (commits (10 # 5 # 7 # replicate 198 0)))"
    by (simp del: commits.simps)
qed

text \<open>
  Claim C3, as the code has it. One pass of the loop body either appends the next commit
  to the stack (when the stack is empty or the commit is no later than \<^verbatim>\<open>stack[0]\<close>), or
  moves the whole stack, last entry first, to the anomaly list and leaves the next
  commit as the only entry. The next commit is inserted in both cases. So in the
  finished stack no entry is later than the first entry.
\<close>

theorem C3_no_entry_later_than_first:
  "(build_loop t [tip] [] (- 1) = Inr (s, a) \<longrightarrow>
      s \<noteq> [] \<and> (\<forall>c\<in>set s. committed_datetime c \<le> committed_datetime (hd s)))
   \<and> place n (st, an) =
      (if st \<noteq> [] \<and> committed_datetime (hd st) < committed_datetime n
       then ([n], an @ rev st) else (st @ [n], an))"
proof (intro conjI impI)
  assume r: "build_loop t [tip] [] (- 1) = Inr (s, a)"
  then obtain N where sw: "sweep ([tip], []) (take N (tl (first_parent_chain tip))) = (s, a)"
    by (rule build_loop_result)
  have "s \<noteq> [] \<and> (\<forall>c\<in>set s. committed_datetime c \<le> committed_datetime (hd s))"
    by (rule sweep_head[OF sw]) auto
  then show "s \<noteq> []" and "\<forall>c\<in>set s. committed_datetime c \<le> committed_datetime (hd s)"
    by auto
next
  show "place n (st, an) =
      (if st \<noteq> [] \<and> committed_datetime (hd st) < committed_datetime n
       then ([n], an @ rev st) else (st @ [n], an))"
    by (rule place_eq)
qed

theorem C3_no_entry_later_than_first_witness:
  "commits (10 # 5 # 7 # replicate 198 0) \<noteq> []
   \<and> committed_datetime (commits (10 # 5 # 7 # replicate 198 0) ! 2)
       \<le> committed_datetime (hd (commits (10 # 5 # 7 # replicate 198 0)))
   \<and> place (Commit [] 9 []) ([Commit [] 5 [Commit [] 9 []]], []) =
       ([Commit [] 9 []], [Commit [] 5 [Commit [] 9 []]])"
proof -
  have "commits (10 # 5 # 7 # replicate 198 0) ! 2 \<in> set (commits (10 # 5 # 7 # replicate 198 0))"
    by (rule nth_mem) simp
  then show ?thesis
    using C3_no_entry_later_than_first[of 8 "Commit [] 10 (history (5 # 7 # replicate 198 0))"
        "commits (10 # 5 # 7 # replicate 198 0)" "[]"
        "Commit [] 9 []" "[Commit [] 5 [Commit [] 9 []]]" "[]"] run_10_5_7
    by simp
qed

subsection \<open>C6: the countdown window\<close>

text \<open>
  Claim C6. The counter is negative (inactive) at the start and stays negative while
  the commits reached are at or after the reference time; at the first commit reached
  that is strictly earlier it is set to 200 and decremented to 199 in the same pass;
  while positive it is decremented once per pass as long as the commits reached are not
  later than the reference time, and a later one makes it negative again; the loop
  returns when it is zero, and otherwise makes one more pass. Consequently, if the first
  commit reached by a parent step that is earlier than the reference time is at index
  \<open>Suc (length pre)\<close> of the first-parent chain (the tip has index 0 and is never
  compared with the reference time), no commit after it is later than the reference
  time, and at least 199 commits follow it, then the traversal returns and has visited
  exactly the first \<open>Suc (length pre) + 200\<close> commits of the chain, the tip included.
\<close>

theorem C6_countdown_window:
  "(c < 0 \<and> t \<le> committed_datetime n \<longrightarrow> countdown t n c = c - 1)
   \<and> (c < 0 \<and> committed_datetime n < t \<longrightarrow> countdown t n c = 200 - 1)
   \<and> (0 < c \<and> committed_datetime n \<le> t \<longrightarrow> countdown t n c = c - 1)
   \<and> (0 < c \<and> t < committed_datetime n \<longrightarrow> countdown t n c = - 1 - 1)
   \<and> build_loop t s a 0 = Inr (s, a)
   \<and> (c \<noteq> 0 \<and> s \<noteq> [] \<and> parents (last s) = n # ps \<longrightarrow>
        build_loop t s a c =
          build_loop t (fst (place n (s, a))) (snd (place n (s, a))) (countdown t n c))
   \<and> (first_parent_chain tip = tip # pre @ y # post \<and>
       (\<forall>x\<in>set pre. t \<le> committed_datetime x) \<and> committed_datetime y < t \<and>
       (\<forall>x\<in>set post. committed_datetime x \<le> t) \<and> 199 \<le> length post
       \<longrightarrow> (\<exists>s' a'. build_loop t [tip] [] (- 1) = Inr (s', a') \<and>
             length s' + length a' = Suc (length pre) + 200 \<and>
             set s' \<union> set a' = set (take (Suc (length pre) + 200) (first_parent_chain tip))))"
proof (intro conjI impI)
  show "countdown t n c = c - 1" if "c < 0 \<and> t \<le> committed_datetime n"
    using that by (simp add: countdown_def)
  show "countdown t n c = 200 - 1" if "c < 0 \<and> committed_datetime n < t"
    using that by (simp add: countdown_def)
  show "countdown t n c = c - 1" if "0 < c \<and> committed_datetime n \<le> t"
    using that by (simp add: countdown_def)
  show "countdown t n c = - 1 - 1" if "0 < c \<and> t < committed_datetime n"
    using that by (simp add: countdown_def)
  show "build_loop t s a 0 = Inr (s, a)"
    by (subst build_loop.simps) simp
  show "build_loop t s a c =
      build_loop t (fst (place n (s, a))) (snd (place n (s, a))) (countdown t n c)"
    if "c \<noteq> 0 \<and> s \<noteq> [] \<and> parents (last s) = n # ps"
    using that by (intro build_loop_step) auto
  assume h: "first_parent_chain tip = tip # pre @ y # post \<and>
       (\<forall>x\<in>set pre. t \<le> committed_datetime x) \<and> committed_datetime y < t \<and>
       (\<forall>x\<in>set post. committed_datetime x \<le> t) \<and> 199 \<le> length post"
  obtain s' a' where sw: "sweep ([tip], []) (pre @ y # take 199 post) = (s', a')"
    by force
  have run: "build_loop t [tip] [] (- 1) = Inr (s', a')"
    using h build_loop_crossing[of tip pre y post t] sw by simp
  have tk: "take (Suc (length pre) + 200) (first_parent_chain tip) = tip # pre @ y # take 199 post"
    using h take_crossing[of pre tip y post] by simp
  have "length s' + length a' = Suc (length pre) + 200"
    using sweep_length[OF sw] h by simp
  moreover have "set s' \<union> set a' = set (take (Suc (length pre) + 200) (first_parent_chain tip))"
    using sweep_set[OF sw] unfolding tk by auto
  ultimately show "\<exists>s' a'. build_loop t [tip] [] (- 1) = Inr (s', a') \<and>
             length s' + length a' = Suc (length pre) + 200 \<and>
             set s' \<union> set a' = set (take (Suc (length pre) + 200) (first_parent_chain tip))"
    using run by blast
qed

theorem C6_countdown_window_witness:
  "(\<exists>s' a'. build_loop 8 [Commit [] 10 (history (5 # replicate 199 0))] [] (- 1) = Inr (s', a') \<and>
      length s' + length a' = 201)
   \<and> countdown 8 (Commit [] 10 []) (- 3) = - 4
   \<and> countdown 8 (Commit [] 5 []) (- 3) = 199
   \<and> countdown 8 (Commit [] 5 []) 7 = 6
   \<and> countdown 8 (Commit [] 10 []) 7 = - 2"
proof -
  let ?tip = "Commit [] 10 (history (5 # replicate 199 0))"
  have ch: "first_parent_chain ?tip =
      ?tip # [] @ Commit [] 5 (history (replicate 199 0)) # commits (replicate 199 0)"
    by (simp add: chain_commits del: history.simps)
  have post: "\<forall>x\<in>set (commits (replicate 199 0)). committed_datetime x \<le> 8"
    using time_commits by fastforce
  have hyp: "first_parent_chain ?tip =
        ?tip # [] @ Commit [] 5 (history (replicate 199 0)) # commits (replicate 199 0) \<and>
      (\<forall>x\<in>set []. 8 \<le> committed_datetime x) \<and>
      committed_datetime (Commit [] 5 (history (replicate 199 0))) < 8 \<and>
      (\<forall>x\<in>set (commits (replicate 199 0)). committed_datetime x \<le> 8) \<and>
      199 \<le> length (commits (replicate 199 0))"
    using ch post by simp
  from C6_countdown_window[of "- 1" 8 "Commit [] 5 []" "[]" "[]" "[]" ?tip "[]"
      "Commit [] 5 (history (replicate 199 0))" "commits (replicate 199 0)"] hyp
  obtain s' a' where r: "build_loop 8 [?tip] [] (- 1) = Inr (s', a')"
    and l: "length s' + length a' = Suc (length ([]::commit list)) + 200"
    by blast
  from l have "length s' + length a' = 201" by simp
  with r have run: "\<exists>s' a'. build_loop 8 [?tip] [] (- 1) = Inr (s', a') \<and>
      length s' + length a' = 201"
    by blast
  have 1: "countdown 8 (Commit [] 10 []) (- 3) = - 4"
    using C6_countdown_window[of "- 3" 8 "Commit [] 10 []" "[]" "[]" "[]"
        "Commit [] 0 []" "[]" "Commit [] 0 []" "[]"] by simp
  have 2: "countdown 8 (Commit [] 5 []) (- 3) = 199"
    using C6_countdown_window[of "- 3" 8 "Commit [] 5 []" "[]" "[]" "[]"
        "Commit [] 0 []" "[]" "Commit [] 0 []" "[]"] by simp
  have 3: "countdown 8 (Commit [] 5 []) 7 = 6"
    using C6_countdown_window[of 7 8 "Commit [] 5 []" "[]" "[]" "[]"
        "Commit [] 0 []" "[]" "Commit [] 0 []" "[]"] by simp
  have 4: "countdown 8 (Commit [] 10 []) 7 = - 2"
    using C6_countdown_window[of 7 8 "Commit [] 10 []" "[]" "[]" "[]"
        "Commit [] 0 []" "[]" "Commit [] 0 []" "[]"] by simp
  from run 1 2 3 4 show ?thesis by blast
qed

subsection \<open>C9: no commit is in both lists\<close>

text \<open>
  Claim C9. When the stack builder returns, the stack and the anomaly list have no
  commit in common, neither holds a commit twice, and together they hold exactly the
  commits visited: the first \<open>length s + length a\<close> commits of the first-parent chain of
  the tip.
\<close>

theorem C9_stack_and_anomalies_disjoint:
  assumes "build_loop t [tip] [] (- 1) = Inr (s, a)"
  shows "set s \<inter> set a = {} \<and> distinct s \<and> distinct a \<and>
    set s \<union> set a = set (take (length s + length a) (first_parent_chain tip))"
  using assms by (rule build_loop_partition)

theorem C9_stack_and_anomalies_disjoint_witness:
  "build_loop 8 [Commit [] 5 (history (10 # 7 # replicate 199 0))] [] (- 1) =
     Inr (commits (10 # 7 # replicate 199 0), [Commit [] 5 (history (10 # 7 # replicate 199 0))])
   \<and> set (commits (10 # 7 # replicate 199 0)) \<inter>
       set [Commit [] 5 (history (10 # 7 # replicate 199 0))] = {}
   \<and> distinct (commits (10 # 7 # replicate 199 0))"
  using C9_stack_and_anomalies_disjoint[OF run_5_10_7] run_5_10_7 by blast

subsection \<open>C10: a tip older than its parent\<close>

text \<open>
  Claim C10. If the first parent of the tip is strictly later than the tip, the first
  pass of the loop moves the tip from the stack to the anomaly list, and when the stack
  builder returns the tip is in the anomaly list and not in the stack. So when the
  reference commit is not out of order and \<^verbatim>\<open>--search-out-of-order\<close> is not given (the
  anomalies are not merged back), whatever the search returns, neither the best nor the
  second-best commit is the tip.
\<close>

theorem C10_tip_evicted:
  assumes "start_commit r branch = Inr tip" "parents tip = p # ps"
    "committed_datetime tip < committed_datetime p"
    "\<not> search_out_of_order a"
    "ooo_loop (committed_datetime target_commit) 200 target_commit = Inr (False, n)"
    "find_closest_commits a r target_commit branch = Inr (best, second)"
  shows "place p ([tip], []) = ([p], [tip])
    \<and> (\<exists>s a'. build_loop (committed_datetime target_commit) [tip] [] (- 1) = Inr (s, a') \<and>
          tip \<in> set a' \<and> tip \<notin> set s)
    \<and> best \<noteq> tip \<and> second \<noteq> Some tip"
proof -
  let ?t = "committed_datetime target_commit"
  obtain s a' where run: "build_loop ?t [tip] [] (- 1) = Inr (s, a')"
    using assms(1,5,6)
    by (cases "build_loop ?t [tip] [] (- 1)") (auto simp: find_closest_commits_def)
  from build_loop_tip_evicted[OF assms(2,3) run]
  have ev: "tip \<in> set a'" "tip \<notin> set s" by auto
  have "find_closest_commits a r target_commit branch = select_closest a ?t False s a'"
    using find_closest_commits_eq[OF assms(5,1) run, of a] assms(4) by simp
  with assms(6) have sel: "select_closest a ?t False s a' = Inr (best, second)" by simp
  have sub: "set (merge_filter a ?t False s a') \<subseteq> set s"
    by (auto simp: merge_filter_def)
  from select_closest_members[OF sel] sub ev(2)
  have "best \<noteq> tip" "second \<noteq> Some tip" by auto
  moreover have "place p ([tip], []) = ([p], [tip])"
    using assms(3) by (simp add: place_eq)
  ultimately show ?thesis using run ev by blast
qed

theorem C10_tip_evicted_witness:
  "find_closest_commits \<lparr>search_out_of_order = False, always_after = False, always_before = False\<rparr>
     \<lparr>head_commit = Commit [] 5 (history (10 # 7 # replicate 199 0)),
      commit_named = (\<lambda>name. Some (Commit [] 5 (history (10 # 7 # replicate 199 0))))\<rparr>
     (Commit [] 8 (history (replicate 200 8))) ''master'' =
     Inr (Commit [] 7 (history (replicate 199 0)),
          Some (Commit [] 10 (history (7 # replicate 199 0))))
   \<and> Commit [] 7 (history (replicate 199 0)) \<noteq> Commit [] 5 (history (10 # 7 # replicate 199 0))
   \<and> Some (Commit [] 10 (history (7 # replicate 199 0))) \<noteq>
       Some (Commit [] 5 (history (10 # 7 # replicate 199 0)))"
proof -
  let ?a = "\<lparr>search_out_of_order = False, always_after = False, always_before = False\<rparr>"
  let ?tip = "Commit [] 5 (history (10 # 7 # replicate 199 0))"
  let ?r = "\<lparr>head_commit = ?tip, commit_named = (\<lambda>name. Some ?tip)\<rparr>"
  let ?c = "Commit [] 8 (history (replicate 200 8))"
  let ?c10 = "Commit [] 10 (history (7 # replicate 199 0))"
  let ?c7 = "Commit [] 7 (history (replicate 199 0))"
  have ref: "ooo_loop (committed_datetime ?c) 200 ?c = Inr (False, 0)"
    using ooo_loop_history[of "replicate 200 8" 8 8] by simp
  have st: "start_commit ?r ''master'' = Inr ?tip"
    by (simp add: start_commit_def)
  have run: "build_loop (committed_datetime ?c) [?tip] [] (- 1) =
      Inr (commits (10 # 7 # replicate 199 0), [?tip])"
    using run_5_10_7 by simp
  have "first_two (rank 8 ([?c10] @ ?c7 # commits (replicate 199 0))) = Inr (?c7, Some ?c10)"
  proof (rule first_two_rank[where pre' = "[]" and post' = "commits (replicate 199 0)"])
    show "\<forall>x\<in>set [?c10]. distance 8 ?c7 < distance 8 x"
      by (simp add: distance_def)
    show "\<forall>x\<in>set (commits (replicate 199 0)). distance 8 ?c7 \<le> distance 8 x"
      by (simp add: distance_commits) (simp add: distance_def)
    show "[?c10] @ commits (replicate 199 0) = [] @ ?c10 # commits (replicate 199 0)"
      by simp
    show "\<forall>x\<in>set []. distance 8 ?c10 < distance 8 x"
      by simp
    show "\<forall>x\<in>set (commits (replicate 199 0)). distance 8 ?c10 \<le> distance 8 x"
      by (simp add: distance_commits) (simp add: distance_def)
  qed
  then have sel: "select_closest ?a 8 False (commits (10 # 7 # replicate 199 0)) [?tip] =
      Inr (?c7, Some ?c10)"
    by (simp add: select_closest_def merge_filter_def del: history.simps)
  have res: "find_closest_commits ?a ?r ?c ''master'' = Inr (?c7, Some ?c10)"
    using find_closest_commits_eq[OF ref st run, of ?a] sel by simp
  have par: "parents ?tip = ?c10 # []" by simp
  have lt: "committed_datetime ?tip < committed_datetime ?c10" by simp
  have so: "\<not> search_out_of_order ?a" by simp
  from C10_tip_evicted[OF st par lt so ref res] res show ?thesis by blast
qed

subsection \<open>C4: the three-commit scenario\<close>

text \<open>
  Claim C4 gives the reference time 2024-01-10T12:00:00Z (1704888000 seconds after the
  epoch) and a target history with the times 2024-01-15, 2024-01-09 and 2024-01-08
  (1705276800, 1704758400, 1704672000), and expects the commit of 2024-01-09 as best.
  On that history the countdown starts at the second commit and the traversal reads
  \<^verbatim>\<open>parents[0]\<close> of the third, a root: the search raises \<^verbatim>\<open>IndexError\<close>. The reference
  commit here has 200 ancestors, none later than itself, so its lineage check returns.
\<close>

theorem C4_three_commit_history_raises:
  "find_closest_commits \<lparr>search_out_of_order = False, always_after = False, always_before = False\<rparr>
     \<lparr>head_commit = Commit [] 1705276800 (history [1704758400, 1704672000]),
      commit_named = (\<lambda>name. Some (Commit [] 1705276800 (history [1704758400, 1704672000])))\<rparr>
     (Commit [] 1704888000 (history (replicate 200 1704800000))) ''master'' = Inl IndexError"
proof -
  let ?tip = "Commit [] 1705276800 (history [1704758400, 1704672000])"
  let ?r = "\<lparr>head_commit = ?tip, commit_named = (\<lambda>name. Some ?tip)\<rparr>"
  have ch: "first_parent_chain ?tip =
      [?tip, Commit [] 1704758400 (history [1704672000]), Commit [] 1704672000 []]"
    using chain_commits[of 1705276800 "[1704758400, 1704672000]"] by simp
  have st: "start_commit ?r ''master'' = Inr ?tip"
    by (simp add: start_commit_def)
  show ?thesis
    by (rule find_closest_commits_short[OF ch _ _ st]) simp_all
qed

text \<open>
  Claim C4, as the code has it. If the first-parent chain of the target tip begins with
  the commits of 2024-01-15, 2024-01-09 and 2024-01-08 and goes on with at least 198
  further commits, none later than the one of 2024-01-08, if the lineage check of the
  reference commit returns, and if \<^verbatim>\<open>--always-after\<close> is not given, then the search
  returns the commit of 2024-01-09 as best and the commit of 2024-01-08 as second best.
  If the chain is those three commits and nothing else, the search raises
  \<^verbatim>\<open>IndexError\<close>, whatever the reference commit's own history and the flags are.
\<close>

theorem C4_scenario:
  "(first_parent_chain tip = c15 # c09 # c08 # post \<and>
    committed_datetime c15 = 1705276800 \<and> committed_datetime c09 = 1704758400 \<and>
    committed_datetime c08 = 1704672000 \<and> committed_datetime target_commit = 1704888000 \<and>
    198 \<le> length post \<and> (\<forall>x\<in>set post. committed_datetime x \<le> committed_datetime c08) \<and>
    ooo_loop (committed_datetime target_commit) 200 target_commit = Inr res \<and>
    start_commit r branch = Inr tip \<and> \<not> always_after a
    \<longrightarrow> find_closest_commits a r target_commit branch = Inr (c09, Some c08))
   \<and> (first_parent_chain tip = [c15, c09, c08] \<and>
    committed_datetime c15 = 1705276800 \<and> committed_datetime c09 = 1704758400 \<and>
    committed_datetime c08 = 1704672000 \<and> committed_datetime target_commit = 1704888000 \<and>
    start_commit r branch = Inr tip
    \<longrightarrow> find_closest_commits a r target_commit branch = Inl IndexError)"
proof (intro conjI impI)
  assume h: "first_parent_chain tip = [c15, c09, c08] \<and>
    committed_datetime c15 = 1705276800 \<and> committed_datetime c09 = 1704758400 \<and>
    committed_datetime c08 = 1704672000 \<and> committed_datetime target_commit = 1704888000 \<and>
    start_commit r branch = Inr tip"
  then show "find_closest_commits a r target_commit branch = Inl IndexError"
    by (intro find_closest_commits_short[of tip c15 c09 c08]) auto
next
  assume h: "first_parent_chain tip = c15 # c09 # c08 # post \<and>
    committed_datetime c15 = 1705276800 \<and> committed_datetime c09 = 1704758400 \<and>
    committed_datetime c08 = 1704672000 \<and> committed_datetime target_commit = 1704888000 \<and>
    198 \<le> length post \<and> (\<forall>x\<in>set post. committed_datetime x \<le> committed_datetime c08) \<and>
    ooo_loop (committed_datetime target_commit) 200 target_commit = Inr res \<and>
    start_commit r branch = Inr tip \<and> \<not> always_after a"
  let ?t = "committed_datetime target_commit"
  let ?P = "take 198 post"
  obtain found n where res: "res = (found, n)" by (cases res)
  have tip: "tip = c15" using hd_chain[of tip] h by simp
  have ch: "first_parent_chain tip = tip # [] @ c09 # (c08 # post)"
    using h tip by simp
  have old: "\<forall>x\<in>set post. committed_datetime x \<le> 1704672000"
    using h by auto
  have old': "\<forall>x\<in>set (c08 # post). committed_datetime x \<le> ?t"
  proof
    fix x assume "x \<in> set (c08 # post)"
    with old h have "committed_datetime x \<le> 1704672000" by auto
    with h show "committed_datetime x \<le> ?t" by simp
  qed
  have "build_loop ?t [tip] [] (- 1) =
      (if 199 \<le> length (c08 # post)
       then Inr (sweep ([tip], []) ([] @ c09 # take 199 (c08 # post)))
       else Inl IndexError)"
  proof (rule build_loop_crossing[OF ch _ _ old'])
    show "\<forall>x\<in>set []. ?t \<le> committed_datetime x" by simp
    show "committed_datetime c09 < ?t" using h by simp
  qed
  then have "build_loop ?t [tip] [] (- 1) = Inr (sweep ([tip], []) (c09 # c08 # ?P))"
    using h by simp
  moreover have "sweep ([tip], []) (c09 # c08 # ?P) = ([tip] @ c09 # c08 # ?P, [])"
  proof (rule sweep_no_eviction)
    show "[tip] \<noteq> []" by simp
    show "\<forall>n\<in>set (c09 # c08 # ?P). committed_datetime n \<le> committed_datetime (hd [tip])"
    proof
      fix x assume "x \<in> set (c09 # c08 # ?P)"
      then consider "x = c09" | "x = c08" | "x \<in> set post"
        by (auto dest: in_set_takeD)
      then have "committed_datetime x \<le> 1704758400"
      proof cases
        case 3
        with old have "committed_datetime x \<le> 1704672000" by blast
        then show ?thesis by simp
      qed (use h in simp_all)
      then show "committed_datetime x \<le> committed_datetime (hd [tip])"
        using h tip by simp
    qed
  qed
  ultimately have run: "build_loop ?t [tip] [] (- 1) = Inr (c15 # c09 # c08 # ?P, [])"
    using tip by simp
  have fnd: "find_closest_commits a r target_commit branch =
      select_closest a ?t (found \<or> search_out_of_order a) (c15 # c09 # c08 # ?P) []"
    using h res by (intro find_closest_commits_eq[OF _ _ run]) auto
  have d09: "distance ?t c09 = 129600" and d08: "distance ?t c08 = 216000"
    and d15: "distance ?t c15 = 388800"
    using h by (simp_all add: distance_def)
  have oP: "committed_datetime x \<le> 1704672000" if "x \<in> set ?P" for x
    using that old by (blast dest: in_set_takeD)
  have dP: "\<forall>x\<in>set ?P. 216000 \<le> distance ?t x"
  proof
    fix x assume "x \<in> set ?P"
    from oP[OF this] show "216000 \<le> distance ?t x"
      using h by (simp add: distance_def)
  qed
  have bP: "\<forall>x\<in>set ?P. committed_datetime x < ?t"
  proof
    fix x assume "x \<in> set ?P"
    from oP[OF this] show "committed_datetime x < ?t"
      using h by simp
  qed
  show "find_closest_commits a r target_commit branch = Inr (c09, Some c08)"
  proof (cases "always_before a")
    case True
    have "filter (\<lambda>c. committed_datetime c < ?t) ?P = ?P"
      using bP by (simp add: filter_id_conv)
    then have mf: "merge_filter a ?t (found \<or> search_out_of_order a) (c15 # c09 # c08 # ?P) [] =
        [] @ c09 # (c08 # ?P)"
      using h True by (simp add: merge_filter_def)
    have "first_two (rank ?t ([] @ c09 # (c08 # ?P))) = Inr (c09, Some c08)"
      by (rule first_two_rank[where pre' = "[]" and post' = ?P])
        (use d09 d08 dP in auto)
    then show ?thesis by (simp add: fnd select_closest_def mf)
  next
    case False
    then have mf: "merge_filter a ?t (found \<or> search_out_of_order a) (c15 # c09 # c08 # ?P) [] =
        [c15] @ c09 # (c08 # ?P)"
      using h by (simp add: merge_filter_def)
    have "first_two (rank ?t ([c15] @ c09 # (c08 # ?P))) = Inr (c09, Some c08)"
      by (rule first_two_rank[where pre' = "[c15]" and post' = ?P])
        (use d09 d08 d15 dP in auto)
    then show ?thesis by (simp add: fnd select_closest_def mf)
  qed
qed

theorem C4_scenario_witness:
  "find_closest_commits \<lparr>search_out_of_order = False, always_after = False, always_before = False\<rparr>
     \<lparr>head_commit =
        Commit [] 1705276800 (history (1704758400 # 1704672000 # replicate 198 1704000000)),
      commit_named = (\<lambda>name. Some
        (Commit [] 1705276800 (history (1704758400 # 1704672000 # replicate 198 1704000000))))\<rparr>
     (Commit [] 1704888000 (history (replicate 200 1704800000))) ''master'' =
     Inr (Commit [] 1704758400 (history (1704672000 # replicate 198 1704000000)),
          Some (Commit [] 1704672000 (history (replicate 198 1704000000))))"
proof -
  let ?a = "\<lparr>search_out_of_order = False, always_after = False, always_before = False\<rparr>"
  let ?tip = "Commit [] 1705276800 (history (1704758400 # 1704672000 # replicate 198 1704000000))"
  let ?r = "\<lparr>head_commit = ?tip, commit_named = (\<lambda>name. Some ?tip)\<rparr>"
  let ?c = "Commit [] 1704888000 (history (replicate 200 1704800000))"
  let ?c09 = "Commit [] 1704758400 (history (1704672000 # replicate 198 1704000000))"
  let ?c08 = "Commit [] 1704672000 (history (replicate 198 1704000000))"
  let ?post = "commits (replicate 198 1704000000)"
  have ref: "ooo_loop (committed_datetime ?c) 200 ?c = Inr (False, 0)"
    using ooo_loop_history[of "replicate 200 1704800000" 1704888000 1704888000] by simp
  have st: "start_commit ?r ''master'' = Inr ?tip"
    by (simp add: start_commit_def)
  have ch: "first_parent_chain ?tip = ?tip # ?c09 # ?c08 # ?post"
    by (simp add: chain_commits del: history.simps)
  have post: "\<forall>x\<in>set ?post. committed_datetime x \<le> committed_datetime ?c08"
    using time_commits by fastforce
  have hyp: "first_parent_chain ?tip = ?tip # ?c09 # ?c08 # ?post \<and>
    committed_datetime ?tip = 1705276800 \<and> committed_datetime ?c09 = 1704758400 \<and>
    committed_datetime ?c08 = 1704672000 \<and> committed_datetime ?c = 1704888000 \<and>
    198 \<le> length ?post \<and> (\<forall>x\<in>set ?post. committed_datetime x \<le> committed_datetime ?c08) \<and>
    ooo_loop (committed_datetime ?c) 200 ?c = Inr (False, 0) \<and>
    start_commit ?r ''master'' = Inr ?tip \<and> \<not> always_after ?a"
    using ch post ref st by simp
  from C4_scenario[of ?tip ?tip ?c09 ?c08 ?post ?c "(False, 0)" ?r "''master''" ?a] hyp
  show ?thesis by blast
qed

end
